theory Spec2Isabelle
  imports Main
begin

section \<open>Data model of \<open>kfp/dsl/_ops_group.py\<close>\<close>

text \<open>
  Group nodes and tasks are Python objects that are shared by reference: a node sits in
  its parent's child list and on the pipeline's stack at the same time. Objects are
  therefore kept in stores indexed by address, and every list of nodes or tasks is a list
  of addresses.
\<close>

type_synonym gid = nat
type_synonym oid = nat

datatype error =
    NoActiveContextError
  | InvalidExitOpError
  | InvalidParallelismError
  | StackUnderflowError
  | AttributeError
  | TypeError
  | RecursionError

text \<open>
  Modelled from the spec: the task objects (\<open>_container_op.ContainerOp\<close>), of which
  this module reads \<open>dependent_names\<close> and writes \<open>is_exit_handler\<close>.
\<close>

record ContainerOp =
  dependent_names :: "string list"
  is_exit_handler :: bool

text \<open>
  Modelled from the spec: the active build context (\<open>_pipeline.Pipeline\<close>): the stack
  of currently open groups (top last), the groups registered so far, which line 62 reads
  as \<open>.groups\<close>, and the group-id counter.
\<close>

record Pipeline =
  stack :: "gid list"
  groups :: "gid list"
  group_id :: int

text \<open>
  The attributes \<open>OpsGroup.__init__\<close> sets, followed by the attributes the subclasses
  add (\<open>None\<close> while the attribute is absent).
\<close>

record 'v OpsGroup =
  type :: string
  ops :: "oid list"
  groups :: "gid list"
  name :: "string option"
  dependencies :: "oid list"
  recursive_ref :: "gid option"
  loop_args :: "'v option"
  parallelism :: "int option"
  exit_op :: "oid option"
  items_is_pipeline_param :: "bool option"

record 'v state =
  default_pipeline :: "Pipeline option"
  heap :: "gid \<Rightarrow> 'v OpsGroup"
  op_heap :: "oid \<Rightarrow> ContainerOp"

type_synonym ('v, 'a) result = "(error + 'a) \<times> 'v state"

definition OpsGroup_init :: "'v state \<Rightarrow> gid \<Rightarrow> string \<Rightarrow> string option \<Rightarrow> 'v state" where
  "OpsGroup_init s self group_type nm =
     s\<lparr>heap := (heap s)(self :=
        (heap s self)\<lparr>type := group_type, ops := [], OpsGroup.groups := [], name := nm,
                       dependencies := [], recursive_ref := None, loop_args := None,
                       parallelism := None\<rparr>)\<rparr>"

subsection \<open>The pipeline operations the module calls\<close>

text \<open>
  Modelled from the spec: \<open>Pipeline.push_ops_group\<close>, which registers the node as a child
  of the current top of the stack (if any), pushes it, and records it among the groups
  registered so far.
\<close>

definition push_ops_group ::
  "Pipeline \<Rightarrow> (gid \<Rightarrow> 'v OpsGroup) \<Rightarrow> gid \<Rightarrow> Pipeline \<times> (gid \<Rightarrow> 'v OpsGroup)" where
  "push_ops_group p h g =
     (p\<lparr>stack := stack p @ [g], Pipeline.groups := Pipeline.groups p @ [g]\<rparr>,
      (case stack p of
         [] \<Rightarrow> h
       | _ \<Rightarrow> h(last (stack p) :=
                 (h (last (stack p)))\<lparr>OpsGroup.groups := OpsGroup.groups (h (last (stack p))) @ [g]\<rparr>)))"

text \<open>
  Modelled from the spec: \<open>Pipeline.pop_ops_group\<close>, which fails with
  \<open>StackUnderflowError\<close> on an empty stack and removes the top otherwise.
\<close>

definition pop_ops_group :: "Pipeline \<Rightarrow> error + Pipeline" where
  "pop_ops_group p =
     (if stack p = [] then Inl StackUnderflowError else Inr (p\<lparr>stack := butlast (stack p)\<rparr>))"

text \<open>
  Modelled from the spec: \<open>Pipeline.get_next_group_id\<close>, a strictly increasing counter;
  it is advanced by one and the new value is returned.
\<close>

definition get_next_group_id :: "Pipeline \<Rightarrow> int \<times> Pipeline" where
  "get_next_group_id p = (group_id p + 1, p\<lparr>group_id := group_id p + 1\<rparr>)"

subsection \<open>Python's \<open>str\<close> on integers and \<open>str.replace('_', '-')\<close>\<close>

fun str_nat :: "nat \<Rightarrow> string" where
  "str_nat n =
     (if n < 10 then [''0123456789'' ! n]
      else str_nat (n div 10) @ [''0123456789'' ! (n mod 10)])"

declare str_nat.simps [simp del]

definition str_int :: "int \<Rightarrow> string" where
  "str_int i = (if i < 0 then ''-'' @ str_nat (nat (- i)) else str_nat (nat i))"

definition replace_underscore :: "string \<Rightarrow> string" where
  "replace_underscore xs = map (\<lambda>c. if c = CHR ''_'' then CHR ''-'' else c) xs"

subsection \<open>\<open>OpsGroup\<close>\<close>

text \<open>
  \<open>re.match\<close> belongs to the standard library and is a parameter \<open>rm\<close> of everything that
  searches: \<open>rm pattern subject\<close> is \<open>Inr True\<close> for a match object, \<open>Inr False\<close> for
  \<open>None\<close>, and \<open>Inl e\<close> when the call raises (a pattern that does not compile).
\<close>

type_synonym re_match = "string \<Rightarrow> string \<Rightarrow> error + bool"

definition name_pattern :: "string \<Rightarrow> string \<Rightarrow> string" where
  "name_pattern group_type nm =
     ''^'' @ replace_underscore (group_type @ ''-'' @ nm @ ''-'') @ ''['' @ [CHR 0x5C] @ ''d]+$''"

text \<open>The \<open>for\<close> loop of lines 62 to 67; a registered node without a name makes
  \<open>re.match\<close> raise \<open>TypeError\<close>.\<close>

fun matching_loop ::
  "re_match \<Rightarrow> (gid \<Rightarrow> 'v OpsGroup) \<Rightarrow> string \<Rightarrow> string \<Rightarrow> gid list \<Rightarrow> error + gid option" where
  "matching_loop rm h group_type pat [] = Inr None"
| "matching_loop rm h group_type pat (g # gs) =
     (if type (h g) = group_type then
        (case name (h g) of
           None \<Rightarrow> Inl TypeError
         | Some n \<Rightarrow>
             (case rm pat n of
                Inl e \<Rightarrow> Inl e
              | Inr True \<Rightarrow> Inr (Some g)
              | Inr False \<Rightarrow> matching_loop rm h group_type pat gs))
      else matching_loop rm h group_type pat gs)"

definition get_matching_opsgroup_already_in_pipeline ::
  "re_match \<Rightarrow> 'v state \<Rightarrow> string \<Rightarrow> string option \<Rightarrow> error + gid option" where
  "get_matching_opsgroup_already_in_pipeline rm s group_type nm =
     (case default_pipeline s of
        None \<Rightarrow> Inl NoActiveContextError
      | Some p \<Rightarrow>
          (case nm of
             None \<Rightarrow> Inr None
           | Some n \<Rightarrow>
               matching_loop rm (heap s) group_type (name_pattern group_type n)
                 (Pipeline.groups p)))"

definition make_name_unique :: "'v state \<Rightarrow> gid \<Rightarrow> ('v, unit) result" where
  "make_name_unique s self =
     (case default_pipeline s of
        None \<Rightarrow> (Inl NoActiveContextError, s)
      | Some p \<Rightarrow>
          (let g = heap s self;
               (i, p') = get_next_group_id p;
               nm = type g @ ''-'' @ (case name g of None \<Rightarrow> [] | Some n \<Rightarrow> n @ ''-'')
                      @ str_int i
           in (Inr (), s\<lparr>default_pipeline := Some p',
                         heap := (heap s)(self := g\<lparr>name := Some (replace_underscore nm)\<rparr>)\<rparr>)))"

definition OpsGroup_enter :: "re_match \<Rightarrow> 'v state \<Rightarrow> gid \<Rightarrow> ('v, gid) result" where
  "OpsGroup_enter rm s self =
     (case default_pipeline s of
        None \<Rightarrow> (Inl NoActiveContextError, s)
      | Some _ \<Rightarrow>
          (case get_matching_opsgroup_already_in_pipeline rm s
                  (type (heap s self)) (name (heap s self)) of
             Inl e \<Rightarrow> (Inl e, s)
           | Inr r \<Rightarrow>
               (let s1 = s\<lparr>heap := (heap s)(self := (heap s self)\<lparr>recursive_ref := r\<rparr>)\<rparr> in
                case (if r = None then make_name_unique s1 self else (Inr (), s1)) of
                  (Inl e, s2) \<Rightarrow> (Inl e, s2)
                | (Inr _, s2) \<Rightarrow>
                    (case default_pipeline s2 of
                       None \<Rightarrow> (Inl AttributeError, s2)
                     | Some p \<Rightarrow>
                         (let (p', h') = push_ops_group p (heap s2) self
                          in (Inr self, s2\<lparr>default_pipeline := Some p', heap := h'\<rparr>))))))"

definition OpsGroup_exit :: "'v state \<Rightarrow> gid \<Rightarrow> ('v, unit) result" where
  "OpsGroup_exit s self =
     (case default_pipeline s of
        None \<Rightarrow> (Inl AttributeError, s)
      | Some p \<Rightarrow>
          (case pop_ops_group p of
             Inl e \<Rightarrow> (Inl e, s)
           | Inr p' \<Rightarrow> (Inr (), s\<lparr>default_pipeline := Some p'\<rparr>)))"

text \<open>
  \<open>remove_op_recursive\<close> recurses through the child lists of the store, and the store may
  hold a node below itself; the first argument bounds the depth of the recursion, as the
  interpreter's recursion limit does, and \<open>RecursionError\<close> is the result when it is
  used up. Mutations made before an error stay in the store.
\<close>

fun for_each ::
  "('a \<Rightarrow> 'h \<Rightarrow> (error + unit) \<times> 'h) \<Rightarrow> 'a list \<Rightarrow> 'h \<Rightarrow> (error + unit) \<times> 'h" where
  "for_each f [] h = (Inr (), h)"
| "for_each f (x # xs) h =
     (case f x h of
        (Inl e, h') \<Rightarrow> (Inl e, h')
      | (Inr _, h') \<Rightarrow> for_each f xs h')"

fun remove_op_recursive ::
  "nat \<Rightarrow> (gid \<Rightarrow> 'v OpsGroup) \<Rightarrow> gid \<Rightarrow> oid \<Rightarrow> (error + unit) \<times> (gid \<Rightarrow> 'v OpsGroup)" where
  "remove_op_recursive 0 h self op = (Inl RecursionError, h)"
| "remove_op_recursive (Suc n) h self op =
     (let h1 = (if ops (h self) \<noteq> [] \<and> op \<in> set (ops (h self))
                then h(self := (h self)\<lparr>ops := remove1 op (ops (h self))\<rparr>)
                else h)
      in for_each (\<lambda>sub_group h'. remove_op_recursive n h' sub_group op)
           (OpsGroup.groups (h1 self)) h1)"

text \<open>
  Modelled from the spec: \<open>Pipeline.remove_op_from_groups\<close>, which removes the task
  recursively from every registered group.
\<close>

definition remove_op_from_groups ::
  "nat \<Rightarrow> Pipeline \<Rightarrow> (gid \<Rightarrow> 'v OpsGroup) \<Rightarrow> oid \<Rightarrow> (error + unit) \<times> (gid \<Rightarrow> 'v OpsGroup)" where
  "remove_op_from_groups n p h op =
     for_each (\<lambda>g h'. remove_op_recursive n h' g op) (Pipeline.groups p) h"

subsection \<open>\<open>ExitHandler\<close>\<close>

definition ExitHandler_init :: "nat \<Rightarrow> 'v state \<Rightarrow> gid \<Rightarrow> oid \<Rightarrow> ('v, unit) result" where
  "ExitHandler_init n s self exit_op' =
     (let s1 = OpsGroup_init s self ''exit_handler'' None in
      if dependent_names (op_heap s1 exit_op') \<noteq> [] then (Inl InvalidExitOpError, s1)
      else
        (case default_pipeline s1 of
           None \<Rightarrow> (Inl AttributeError, s1)
         | Some p \<Rightarrow>
             (case remove_op_from_groups n p (heap s1) exit_op' of
                (Inl e, h') \<Rightarrow> (Inl e, s1\<lparr>heap := h'\<rparr>)
              | (Inr _, h') \<Rightarrow>
                  (Inr (),
                   s1\<lparr>heap := h'(self := (h' self)\<lparr>exit_op := Some exit_op'\<rparr>),
                      op_heap := (op_heap s1)(exit_op' :=
                                   (op_heap s1 exit_op')\<lparr>is_exit_handler := True\<rparr>)\<rparr>))))"

subsection \<open>\<open>ParallelFor\<close>\<close>




subsection \<open>\<open>Parallelism\<close>\<close>

definition Parallelism_init :: "'v state \<Rightarrow> gid \<Rightarrow> int option \<Rightarrow> ('v, unit) result" where
  "Parallelism_init s self par =
     (let s1 = OpsGroup_init s self ''parallel_limit'' None in
      case par of
        None \<Rightarrow> (Inr (), s1)
      | Some n \<Rightarrow>
          if n \<noteq> 0 then
            (if n > 0
             then (Inr (), s1\<lparr>heap := (heap s1)(self := (heap s1 self)\<lparr>parallelism := Some n\<rparr>)\<rparr>)
             else (Inl InvalidParallelismError, s1))
          else (Inr (), s1))"

subsection \<open>Well-nested scopes\<close>

text \<open>
  A \<open>with\<close> block on a node: \<open>__enter__\<close>, the nested blocks of the body in order, then
  \<open>__exit__\<close>, which also runs when the body raised; an error of \<open>__enter__\<close> skips both
  the body and \<open>__exit__\<close>.
\<close>

datatype scope = Scope gid "scope list"

fun run_scope :: "re_match \<Rightarrow> scope \<Rightarrow> 'v state \<Rightarrow> ('v, unit) result"
  and run_body :: "re_match \<Rightarrow> scope list \<Rightarrow> 'v state \<Rightarrow> ('v, unit) result" where
  "run_scope rm (Scope g body) s =
     (case OpsGroup_enter rm s g of
        (Inl e, s1) \<Rightarrow> (Inl e, s1)
      | (Inr _, s1) \<Rightarrow>
          (case run_body rm body s1 of
             (r, s2) \<Rightarrow>
               (case OpsGroup_exit s2 g of
                  (Inl e, s3) \<Rightarrow> (Inl e, s3)
                | (Inr _, s3) \<Rightarrow> (r, s3))))"
| "run_body rm [] s = (Inr (), s)"
| "run_body rm (b # bs) s =
     (case run_scope rm b s of
        (Inl e, s1) \<Rightarrow> (Inl e, s1)
      | (Inr _, s1) \<Rightarrow> run_body rm bs s1)"

subsection \<open>Shape of the store\<close>

text \<open>\<open>depth_below n h g\<close>: every chain of child links from \<open>g\<close> has fewer than \<open>n\<close> nodes.\<close>

fun depth_below :: "nat \<Rightarrow> (gid \<Rightarrow> 'v OpsGroup) \<Rightarrow> gid \<Rightarrow> bool" where
  "depth_below 0 h g = False"
| "depth_below (Suc n) h g = (\<forall>c \<in> set (OpsGroup.groups (h g)). depth_below n h c)"

text \<open>\<open>in_subtree h g x\<close>: \<open>x\<close> is \<open>g\<close> or is reached from \<open>g\<close> through child lists.\<close>

inductive in_subtree :: "(gid \<Rightarrow> 'v OpsGroup) \<Rightarrow> gid \<Rightarrow> gid \<Rightarrow> bool" for h where
  here: "in_subtree h g g"
| below: "c \<in> set (OpsGroup.groups (h g)) \<Longrightarrow> in_subtree h c x \<Longrightarrow> in_subtree h g x"

text \<open>
  \<open>thinned op h h'\<close>: the store \<open>h'\<close> is \<open>h\<close> with occurrences of \<open>op\<close> taken out of task
  lists and nothing else changed. \<open>removes op h gs h'\<close>: moreover every node below one of
  \<open>gs\<close> has lost an occurrence (if it had one), and the nodes below none are as before.
\<close>

definition thinned :: "oid \<Rightarrow> (gid \<Rightarrow> 'v OpsGroup) \<Rightarrow> (gid \<Rightarrow> 'v OpsGroup) \<Rightarrow> bool" where
  "thinned op h h' \<longleftrightarrow>
     (\<forall>x. h' x = (h x)\<lparr>ops := ops (h' x)\<rparr> \<and>
          filter (\<lambda>t. t \<noteq> op) (ops (h' x)) = filter (\<lambda>t. t \<noteq> op) (ops (h x)) \<and>
          count_list (ops (h' x)) op \<le> count_list (ops (h x)) op)"

definition removes ::
  "oid \<Rightarrow> (gid \<Rightarrow> 'v OpsGroup) \<Rightarrow> gid list \<Rightarrow> (gid \<Rightarrow> 'v OpsGroup) \<Rightarrow> bool" where
  "removes op h gs h' \<longleftrightarrow>
     thinned op h h' \<and>
     (\<forall>x. (\<exists>g \<in> set gs. in_subtree h g x) \<longrightarrow>
          count_list (ops (h' x)) op \<le> count_list (ops (h x)) op - 1) \<and>
     (\<forall>x. (\<forall>g \<in> set gs. \<not> in_subtree h g x) \<longrightarrow> h' x = h x)"

text \<open>A context is active and every registered node has a name.\<close>

definition named_context :: "'v state \<Rightarrow> Pipeline \<Rightarrow> bool" where
  "named_context s p \<longleftrightarrow>
     default_pipeline s = Some p \<and> (\<forall>g \<in> set (Pipeline.groups p). name (heap s g) \<noteq> None)"

subsection \<open>The recursion lookup in the spec's words\<close>


subsection \<open>Example stores\<close>

definition blank :: "nat OpsGroup" where
  "blank = \<lparr>type = [], ops = [], OpsGroup.groups = [], name = None, dependencies = [],
            recursive_ref = None, loop_args = None, parallelism = None, exit_op = None,
            items_is_pipeline_param = None\<rparr>"

definition task_free :: ContainerOp where
  "task_free = \<lparr>dependent_names = [], is_exit_handler = False\<rparr>"

definition task_used :: ContainerOp where
  "task_used = \<lparr>dependent_names = [''train''], is_exit_handler = False\<rparr>"


text \<open>
  A build in progress: the root 10 holds task 7 and the child 11, which holds task 8
  and the child 12, which holds task 9; 10 and 11 are open.
\<close>

definition ex_heap :: "gid \<Rightarrow> nat OpsGroup" where
  "ex_heap =
     (\<lambda>_. blank)
       (10 := blank\<lparr>type := ''pipeline'', name := Some ''demo'', ops := [7],
                     OpsGroup.groups := [11]\<rparr>,
        11 := blank\<lparr>type := ''condition'', name := Some ''condition-1'', ops := [8],
                     OpsGroup.groups := [12]\<rparr>,
        12 := blank\<lparr>type := ''graph'', name := Some ''graph-foo-2'', ops := [9]\<rparr>)"

definition ex_pipeline :: Pipeline where
  "ex_pipeline = \<lparr>stack = [10, 11], Pipeline.groups = [10, 11, 12], group_id = 2\<rparr>"

definition ex_state :: "nat state" where
  "ex_state =
     \<lparr>default_pipeline = Some ex_pipeline, heap = ex_heap,
      op_heap = (\<lambda>_. task_free)(7 := task_used)\<rparr>"

text \<open>
  \<open>ex_state\<close> with three nodes about to be entered: a graph named \<open>foo\<close> and two
  conditions without a name; \<open>ex_match\<close> stands for \<open>re.match\<close> on these names.
\<close>

definition ex_entering :: "nat state" where
  "ex_entering =
     ex_state\<lparr>heap := ex_heap(13 := blank\<lparr>type := ''graph'', name := Some ''foo''\<rparr>,
                                14 := blank\<lparr>type := ''condition''\<rparr>,
                                15 := blank\<lparr>type := ''condition''\<rparr>)\<rparr>"

definition ex_match :: re_match where
  "ex_match pat subject = Inr (pat = name_pattern ''graph'' ''foo'' \<and> subject = ''graph-foo-2'')"

text \<open>The same store after every scope has been closed.\<close>

definition ex_closed :: "nat state" where
  "ex_closed =
     ex_entering\<lparr>default_pipeline :=
       Some \<lparr>stack = [], Pipeline.groups = [10, 11, 12], group_id = 2\<rparr>\<rparr>"


section \<open>Construction without side conditions\<close>

lemma OpsGroup_init_frame:
  "default_pipeline (OpsGroup_init s self t nm) = default_pipeline s"
  "op_heap (OpsGroup_init s self t nm) = op_heap s"
  "x \<noteq> self \<Longrightarrow> heap (OpsGroup_init s self t nm) x = heap s x"
  by (simp_all add: OpsGroup_init_def)

subsection \<open>Parallelism limit\<close>

lemma Parallelism_init_negative:
  "n < 0 \<Longrightarrow> fst (Parallelism_init s self (Some n)) = Inl InvalidParallelismError"
  by (simp add: Parallelism_init_def)

lemma Parallelism_init_absent:
  "fst (Parallelism_init s self None) = Inr () \<and>
   parallelism (heap (snd (Parallelism_init s self None)) self) = None"
  by (simp add: Parallelism_init_def OpsGroup_init_def)

lemma Parallelism_init_positive:
  "0 < n \<Longrightarrow> fst (Parallelism_init s self (Some n)) = Inr () \<and>
   parallelism (heap (snd (Parallelism_init s self (Some n))) self) = Some n"
  by (simp add: Parallelism_init_def OpsGroup_init_def)

text \<open>
  C5. A parallelism limit built with a negative bound fails with
  \<open>InvalidParallelismError\<close>, one built without a bound or with a positive bound stores
  it (lemmas above). With the bound 0 the test \<open>if parallelism:\<close> skips the assertion:
  construction succeeds and the bound stays unset.
\<close>

theorem Parallelism_init_zero:
  "fst (Parallelism_init s self (Some 0)) = Inr () \<and>
   parallelism (heap (snd (Parallelism_init s self (Some 0))) self) = None"
  by (simp add: Parallelism_init_def OpsGroup_init_def)

subsection \<open>Exit handler with a task that has dependents\<close>

text \<open>
  C4. Building an exit handler around a task that has a dependent fails with
  \<open>InvalidExitOpError\<close>; the context, every task and every node other than the object
  under construction are as before.
\<close>

theorem ExitHandler_init_dependents:
  "dependent_names (op_heap s t) \<noteq> [] \<Longrightarrow>
   (\<exists>s'. ExitHandler_init n s self t = (Inl InvalidExitOpError, s') \<and>
      default_pipeline s' = default_pipeline s \<and> op_heap s' = op_heap s \<and>
      (\<forall>x. x \<noteq> self \<longrightarrow> heap s' x = heap s x))"
  by (simp add: ExitHandler_init_def Let_def OpsGroup_init_frame)

theorem ExitHandler_init_dependents_witness:
  "dependent_names (op_heap ex_state 7) \<noteq> [] \<and>
   (\<exists>s'. ExitHandler_init 3 ex_state 5 7 = (Inl InvalidExitOpError, s') \<and>
      default_pipeline s' = default_pipeline ex_state \<and> op_heap s' = op_heap ex_state \<and>
      (\<forall>x. x \<noteq> 5 \<longrightarrow> heap s' x = heap ex_state x))"
proof -
  have d: "dependent_names (op_heap ex_state 7) \<noteq> []"
    by (simp add: ex_state_def task_used_def)
  from ExitHandler_init_dependents [OF d, of 3 5] d show ?thesis by simp
qed

subsection \<open>No build in progress\<close>




section \<open>Scoped entry\<close>

lemma push_ops_group_pipeline:
  "stack (fst (push_ops_group p h g)) = stack p @ [g]"
  "Pipeline.groups (fst (push_ops_group p h g)) = Pipeline.groups p @ [g]"
  "group_id (fst (push_ops_group p h g)) = group_id p"
  by (simp_all add: push_ops_group_def)

lemma push_ops_group_heap:
  "name (snd (push_ops_group p h g) x) = name (h x)"
  "type (snd (push_ops_group p h g) x) = type (h x)"
  "ops (snd (push_ops_group p h g) x) = ops (h x)"
  "recursive_ref (snd (push_ops_group p h g) x) = recursive_ref (h x)"
  "loop_args (snd (push_ops_group p h g) x) = loop_args (h x)"
  by (simp_all add: push_ops_group_def split: list.split)

lemma OpsGroup_enter_found:
  assumes "default_pipeline s = Some p"
    and "get_matching_opsgroup_already_in_pipeline rm s (type (heap s self)) (name (heap s self))
           = Inr (Some m)"
  shows "OpsGroup_enter rm s self =
           (Inr self,
            s\<lparr>default_pipeline :=
                 Some (fst (push_ops_group p
                   ((heap s)(self := (heap s self)\<lparr>recursive_ref := Some m\<rparr>)) self)),
              heap := snd (push_ops_group p
                   ((heap s)(self := (heap s self)\<lparr>recursive_ref := Some m\<rparr>)) self)\<rparr>)"
  using assms by (simp add: OpsGroup_enter_def Let_def split_beta)

lemma OpsGroup_enter_fresh:
  assumes "default_pipeline s = Some p"
    and "get_matching_opsgroup_already_in_pipeline rm s (type (heap s self)) (name (heap s self))
           = Inr None"
  shows "OpsGroup_enter rm s self =
           (Inr self,
            s\<lparr>default_pipeline :=
                 Some (fst (push_ops_group (snd (get_next_group_id p))
                   ((heap s)(self := (heap s self)\<lparr>recursive_ref := None,
                      name := Some (replace_underscore (type (heap s self) @ ''-'' @
                        (case name (heap s self) of None \<Rightarrow> [] | Some n \<Rightarrow> n @ ''-'') @
                        str_int (fst (get_next_group_id p))))\<rparr>)) self)),
              heap := snd (push_ops_group (snd (get_next_group_id p))
                   ((heap s)(self := (heap s self)\<lparr>recursive_ref := None,
                      name := Some (replace_underscore (type (heap s self) @ ''-'' @
                        (case name (heap s self) of None \<Rightarrow> [] | Some n \<Rightarrow> n @ ''-'') @
                        str_int (fst (get_next_group_id p))))\<rparr>)) self)\<rparr>)"
  using assms by (simp add: OpsGroup_enter_def make_name_unique_def Let_def split_beta)


lemma matching_loop_returns:
  "\<forall>g \<in> set gs. type (h g) = kind \<longrightarrow> (\<exists>n b. name (h g) = Some n \<and> rm pat n = Inr b) \<Longrightarrow>
   \<exists>r. matching_loop rm h kind pat gs = Inr r"
  by (induction gs) (auto split: if_splits option.splits sum.splits bool.splits)

lemma ex_entering_simps:
  "default_pipeline ex_entering = Some ex_pipeline"
  "heap ex_entering 10 = blank\<lparr>type := ''pipeline'', name := Some ''demo'', ops := [7],
                    OpsGroup.groups := [11]\<rparr>"
  "heap ex_entering 11 = blank\<lparr>type := ''condition'', name := Some ''condition-1'', ops := [8],
                    OpsGroup.groups := [12]\<rparr>"
  "heap ex_entering 12 = blank\<lparr>type := ''graph'', name := Some ''graph-foo-2'', ops := [9]\<rparr>"
  "heap ex_entering 13 = blank\<lparr>type := ''graph'', name := Some ''foo''\<rparr>"
  "heap ex_entering 14 = blank\<lparr>type := ''condition''\<rparr>"
  "heap ex_entering 15 = blank\<lparr>type := ''condition''\<rparr>"
  by (simp_all add: ex_entering_def ex_state_def ex_heap_def)


subsection \<open>Recursive re-entry\<close>





subsection \<open>Entry without a base name\<close>

text \<open>
  C10. For a node without a base name the lookup returns none whatever is registered:
  entry succeeds, leaves \<open>recursive_ref\<close> unset and mints the name from the kind and the
  next value of the counter, which is larger than every value handed out before.
\<close>

theorem enter_without_name:
  assumes "default_pipeline s = Some p" and "name (heap s self) = None"
  shows "get_matching_opsgroup_already_in_pipeline rm s (type (heap s self)) (name (heap s self))
           = Inr None \<and>
         (\<exists>s' p'. OpsGroup_enter rm s self = (Inr self, s') \<and>
            recursive_ref (heap s' self) = None \<and>
            name (heap s' self) =
              Some (replace_underscore (type (heap s self) @ ''-'' @
                      str_int (fst (get_next_group_id p)))) \<and>
            default_pipeline s' = Some p' \<and> group_id p < fst (get_next_group_id p) \<and>
            group_id p' = fst (get_next_group_id p))"
proof -
  have l: "get_matching_opsgroup_already_in_pipeline rm s (type (heap s self)) (name (heap s self))
           = Inr None"
    using assms by (simp add: get_matching_opsgroup_already_in_pipeline_def)
  show ?thesis
    using l assms(2)
    by (simp add: OpsGroup_enter_fresh [OF assms(1) l] push_ops_group_heap
          push_ops_group_pipeline get_next_group_id_def)
qed

theorem enter_without_name_witness:
  "\<exists>s'. OpsGroup_enter ex_match ex_entering 14 = (Inr 14, s') \<and>
      recursive_ref (heap s' 14) = None \<and> name (heap s' 14) = Some ''condition-3''"
proof -
  have a: "default_pipeline ex_entering = Some ex_pipeline"
    and b: "name (heap ex_entering 14) = None"
    by (simp_all add: ex_entering_simps blank_def)
  have c: "str_int 3 = ''3''"
    by (simp add: str_int_def str_nat.simps)
  from enter_without_name [OF a b, of ex_match] c show ?thesis
    by (auto simp: ex_entering_simps blank_def get_next_group_id_def ex_pipeline_def
          replace_underscore_def)
qed


subsection \<open>Minted names\<close>










lemma replace_underscore_append:
  "replace_underscore (xs @ ys) = replace_underscore xs @ replace_underscore ys"
  by (simp add: replace_underscore_def)









section \<open>Parallel for\<close>





section \<open>Well-nested scopes keep the stack\<close>

lemma lookup_returns:
  assumes "named_context s p" and "\<forall>pat n. \<exists>b. rm pat n = Inr b"
  shows "\<exists>r. get_matching_opsgroup_already_in_pipeline rm s kind nm = Inr r \<and>
             (r \<noteq> None \<longrightarrow> nm \<noteq> None)"
proof (cases nm)
  case None
  with assms show ?thesis
    by (simp add: get_matching_opsgroup_already_in_pipeline_def named_context_def)
next
  case (Some n)
  have "\<forall>g \<in> set (Pipeline.groups p). type (heap s g) = kind \<longrightarrow>
          (\<exists>n' b. name (heap s g) = Some n' \<and> rm (name_pattern kind n) n' = Inr b)"
    using assms by (auto simp: named_context_def)
  then have "\<exists>r. matching_loop rm (heap s) kind (name_pattern kind n) (Pipeline.groups p) = Inr r"
    by (rule matching_loop_returns)
  then obtain r where "matching_loop rm (heap s) kind (name_pattern kind n) (Pipeline.groups p) = Inr r"
    by blast
  with Some assms(1) show ?thesis
    by (simp add: get_matching_opsgroup_already_in_pipeline_def named_context_def)
qed

lemma OpsGroup_enter_pushes:
  assumes "named_context s p" and "\<forall>pat n. \<exists>b. rm pat n = Inr b"
  shows "\<exists>s1 p1. OpsGroup_enter rm s g = (Inr g, s1) \<and> named_context s1 p1 \<and>
           stack p1 = stack p @ [g]"
proof -
  from lookup_returns [OF assms] obtain r where
    l: "get_matching_opsgroup_already_in_pipeline rm s (type (heap s g)) (name (heap s g)) = Inr r"
    and n: "r \<noteq> None \<longrightarrow> name (heap s g) \<noteq> None"
    by blast
  have c: "default_pipeline s = Some p"
    using assms(1) by (simp add: named_context_def)
  have reg: "\<forall>x \<in> set (Pipeline.groups p). name (heap s x) \<noteq> None"
    using assms(1) by (simp add: named_context_def)
  show ?thesis
  proof (cases r)
    case None
    with l have l': "get_matching_opsgroup_already_in_pipeline rm s
             (type (heap s g)) (name (heap s g)) = Inr None" by simp
    show ?thesis
      using reg
      by (simp add: OpsGroup_enter_fresh [OF c l'] named_context_def push_ops_group_heap
            push_ops_group_pipeline get_next_group_id_def)
  next
    case (Some m)
    with l have l': "get_matching_opsgroup_already_in_pipeline rm s
             (type (heap s g)) (name (heap s g)) = Inr (Some m)" by simp
    show ?thesis
      using reg n Some
      by (simp add: OpsGroup_enter_found [OF c l'] named_context_def push_ops_group_heap
            push_ops_group_pipeline)
  qed
qed

lemma OpsGroup_exit_pops:
  assumes "named_context s p" and "stack p = st @ [g]"
  shows "\<exists>s1 p1. OpsGroup_exit s g' = (Inr (), s1) \<and> named_context s1 p1 \<and> stack p1 = st"
  using assms by (simp add: OpsGroup_exit_def pop_ops_group_def named_context_def)

lemma run_balanced:
  assumes rm: "\<forall>pat n. \<exists>b. rm pat n = Inr b"
  shows "named_context s p \<Longrightarrow>
           \<exists>s' p'. run_scope rm sc s = (Inr (), s') \<and> named_context s' p' \<and> stack p' = stack p"
    and "named_context s p \<Longrightarrow>
           \<exists>s' p'. run_body rm scs s = (Inr (), s') \<and> named_context s' p' \<and> stack p' = stack p"
  using rm
proof (induction rm sc s and rm scs s arbitrary: p and p rule: run_scope_run_body.induct)
  case (1 rm g body s)
  from OpsGroup_enter_pushes [OF "1.prems"] obtain s1 p1 where
    e: "OpsGroup_enter rm s g = (Inr g, s1)" and n1: "named_context s1 p1"
    and st1: "stack p1 = stack p @ [g]"
    by blast
  from "1.IH" [OF e [symmetric] refl n1 "1.prems"(2)] obtain s2 p2 where
    b: "run_body rm body s1 = (Inr (), s2)" and n2: "named_context s2 p2"
    and st2: "stack p2 = stack p1"
    by blast
  from OpsGroup_exit_pops [OF n2, of "stack p" g g] st1 st2 obtain s3 p3 where
    x: "OpsGroup_exit s2 g = (Inr (), s3)" and n3: "named_context s3 p3"
    and st3: "stack p3 = stack p"
    by auto
  from e b x n3 st3 show ?case by auto
next
  case (2 rm s)
  then show ?case by auto
next
  case (3 rm b bs s)
  from "3.IH"(1) [OF "3.prems"] obtain s1 p1 where
    r: "run_scope rm b s = (Inr (), s1)" and n1: "named_context s1 p1"
    and st1: "stack p1 = stack p"
    by blast
  from "3.IH"(2) [OF r [symmetric] refl n1 "3.prems"(2)] obtain s2 p2 where
    "run_body rm bs s1 = (Inr (), s2)" "named_context s2 p2" "stack p2 = stack p1"
    by blast
  with r st1 show ?case by auto
qed


lemma OpsGroup_enter_cases:
  assumes "default_pipeline s = Some p"
  shows "(\<exists>e. OpsGroup_enter rm s g = (Inl e, s)) \<or>
         (\<exists>s1 p1. OpsGroup_enter rm s g = (Inr g, s1) \<and> default_pipeline s1 = Some p1 \<and>
            stack p1 = stack p @ [g])"
proof (cases "get_matching_opsgroup_already_in_pipeline rm s (type (heap s g)) (name (heap s g))")
  case (Inl e)
  with assms show ?thesis by (simp add: OpsGroup_enter_def)
next
  case (Inr r)
  show ?thesis
  proof (cases r)
    case None
    with Inr show ?thesis
      by (simp add: OpsGroup_enter_fresh [OF assms] push_ops_group_pipeline get_next_group_id_def)
  next
    case (Some m)
    with Inr show ?thesis
      by (simp add: OpsGroup_enter_found [OF assms] push_ops_group_pipeline)
  qed
qed

lemma OpsGroup_exit_top:
  assumes "default_pipeline s = Some p" and "stack p = st @ [g]"
  shows "\<exists>s1 p1. OpsGroup_exit s g' = (Inr (), s1) \<and> default_pipeline s1 = Some p1 \<and>
           stack p1 = st"
  using assms by (simp add: OpsGroup_exit_def pop_ops_group_def)

lemma run_keeps_stack:
  shows "default_pipeline s = Some p \<Longrightarrow>
           \<exists>p'. default_pipeline (snd (run_scope rm sc s)) = Some p' \<and> stack p' = stack p"
    and "default_pipeline s = Some p \<Longrightarrow>
           \<exists>p'. default_pipeline (snd (run_body rm scs s)) = Some p' \<and> stack p' = stack p"
proof (induction rm sc s and rm scs s arbitrary: p and p rule: run_scope_run_body.induct)
  case (1 rm g body s)
  from OpsGroup_enter_cases [OF "1.prems", of rm g] show ?case
  proof
    assume "\<exists>e. OpsGroup_enter rm s g = (Inl e, s)"
    with "1.prems" show ?thesis by auto
  next
    assume "\<exists>s1 p1. OpsGroup_enter rm s g = (Inr g, s1) \<and> default_pipeline s1 = Some p1 \<and>
            stack p1 = stack p @ [g]"
    then obtain s1 p1 where
      e: "OpsGroup_enter rm s g = (Inr g, s1)" and c1: "default_pipeline s1 = Some p1"
      and st1: "stack p1 = stack p @ [g]"
      by blast
    from "1.IH" [OF e [symmetric] refl c1] obtain p2 where
      c2: "default_pipeline (snd (run_body rm body s1)) = Some p2" and st2: "stack p2 = stack p1"
      by blast
    from OpsGroup_exit_top [OF c2, of "stack p" g g] st1 st2 obtain s3 p3 where
      x: "OpsGroup_exit (snd (run_body rm body s1)) g = (Inr (), s3)"
      and c3: "default_pipeline s3 = Some p3" and st3: "stack p3 = stack p"
      by auto
    from e x c3 st3 show ?thesis by (auto simp: split_beta)
  qed
next
  case (2 rm s)
  then show ?case by auto
next
  case (3 rm b bs s)
  from "3.IH"(1) [OF "3.prems"] obtain p1 where
    c1: "default_pipeline (snd (run_scope rm b s)) = Some p1" and st1: "stack p1 = stack p"
    by blast
  show ?case
  proof (cases "run_scope rm b s")
    case (Pair r s1)
    show ?thesis
    proof (cases r)
      case (Inl e)
      with Pair c1 st1 show ?thesis by auto
    next
      case (Inr u)
      with Pair c1 have c1': "default_pipeline s1 = Some p1" by simp
      from "3.IH"(2) [OF Pair [symmetric] Inr c1'] st1 Pair Inr show ?thesis by auto
    qed
  qed
qed

text \<open>
  C8. Under an active context, a block of well-nested scopes leaves the stack as it found
  it, whatever happens inside, so a stack that was empty before the outermost scope is
  empty after it; when \<open>re.match\<close> does not raise and the registered nodes have names, the
  block ends without an error, also when bodies are empty. Every successful entry pushes
  exactly the entered node, and the exit that follows pops exactly that node.
\<close>

theorem scopes_balanced:
  assumes "default_pipeline s = Some p"
  shows "(\<exists>p'. default_pipeline (snd (run_scope rm sc s)) = Some p' \<and> stack p' = stack p \<and>
            (stack p = [] \<longrightarrow> stack p' = [])) \<and>
         ((\<forall>pat n. \<exists>b. rm pat n = Inr b) \<and>
          (\<forall>g \<in> set (Pipeline.groups p). name (heap s g) \<noteq> None) \<longrightarrow>
            fst (run_scope rm sc s) = Inr ()) \<and>
         (\<forall>g s1. OpsGroup_enter rm s g = (Inr g, s1) \<longrightarrow>
            (\<exists>p1. default_pipeline s1 = Some p1 \<and> stack p1 = stack p @ [g] \<and>
               (\<exists>s2 p2. OpsGroup_exit s1 g = (Inr (), s2) \<and> default_pipeline s2 = Some p2 \<and>
                  stack p2 = stack p)))"
proof (intro conjI allI impI)
  from run_keeps_stack(1) [OF assms, of rm sc]
  show "\<exists>p'. default_pipeline (snd (run_scope rm sc s)) = Some p' \<and> stack p' = stack p \<and>
            (stack p = [] \<longrightarrow> stack p' = [])"
    by auto
next
  assume h: "(\<forall>pat n. \<exists>b. rm pat n = Inr b) \<and>
          (\<forall>g \<in> set (Pipeline.groups p). name (heap s g) \<noteq> None)"
  with assms have "named_context s p" by (simp add: named_context_def)
  from run_balanced(1) [OF _ this, of rm sc] h show "fst (run_scope rm sc s) = Inr ()"
    by auto
next
  fix g s1
  assume e: "OpsGroup_enter rm s g = (Inr g, s1)"
  with OpsGroup_enter_cases [OF assms, of rm g] obtain p1 where
    c1: "default_pipeline s1 = Some p1" and st1: "stack p1 = stack p @ [g]"
    by auto
  from OpsGroup_exit_top [OF c1 st1, of g] c1 st1
  show "\<exists>p1. default_pipeline s1 = Some p1 \<and> stack p1 = stack p @ [g] \<and>
               (\<exists>s2 p2. OpsGroup_exit s1 g = (Inr (), s2) \<and> default_pipeline s2 = Some p2 \<and>
                  stack p2 = stack p)"
    by auto
qed


theorem scopes_balanced_witness:
  "fst (run_scope ex_match (Scope 14 [Scope 13 [], Scope 15 []]) ex_closed) = Inr () \<and>
   (\<exists>p'. default_pipeline (snd (run_scope ex_match (Scope 14 [Scope 13 [], Scope 15 []]) ex_closed))
            = Some p' \<and> stack p' = []) \<and>
   (\<exists>s1 p1 s2 p2. OpsGroup_enter ex_match ex_closed 14 = (Inr 14, s1) \<and>
      default_pipeline s1 = Some p1 \<and> stack p1 = [14] \<and>
      OpsGroup_exit s1 14 = (Inr (), s2) \<and> default_pipeline s2 = Some p2 \<and> stack p2 = [])"
proof -
  have c: "default_pipeline ex_closed =
             Some \<lparr>stack = [], Pipeline.groups = [10, 11, 12], group_id = 2\<rparr>"
    by (simp add: ex_closed_def)
  have t: "\<forall>pat n. \<exists>b. ex_match pat n = Inr b"
    by (simp add: ex_match_def)
  have n: "\<forall>g \<in> set (Pipeline.groups \<lparr>stack = [], Pipeline.groups = [10, 11, 12], group_id = 2\<rparr>).
             name (heap ex_closed g) \<noteq> None"
    by (simp add: ex_closed_def ex_entering_simps blank_def)
  have l: "get_matching_opsgroup_already_in_pipeline ex_match ex_closed
             (type (heap ex_closed 14)) (name (heap ex_closed 14)) = Inr None"
    by (simp add: get_matching_opsgroup_already_in_pipeline_def ex_closed_def ex_entering_simps
          blank_def)
  obtain s1 where e: "OpsGroup_enter ex_match ex_closed 14 = (Inr 14, s1)"
    by (simp add: OpsGroup_enter_fresh [OF c l])
  note b = scopes_balanced [OF c, of ex_match "Scope 14 [Scope 13 [], Scope 15 []]"]
  from b t n have "fst (run_scope ex_match (Scope 14 [Scope 13 [], Scope 15 []]) ex_closed) = Inr ()"
    by simp
  moreover from b have "\<exists>p'. default_pipeline
       (snd (run_scope ex_match (Scope 14 [Scope 13 [], Scope 15 []]) ex_closed)) = Some p' \<and>
       stack p' = []"
    by simp
  moreover from b e have "\<exists>p1. default_pipeline s1 = Some p1 \<and> stack p1 = [14] \<and>
      (\<exists>s2 p2. OpsGroup_exit s1 14 = (Inr (), s2) \<and> default_pipeline s2 = Some p2 \<and> stack p2 = [])"
    by simp
  ultimately show ?thesis using e by blast
qed

section \<open>Removing a task from a subtree\<close>

lemma thinned_refl: "thinned op h h"
  by (simp add: thinned_def)

lemma thinned_trans: "thinned op h h1 \<Longrightarrow> thinned op h1 h2 \<Longrightarrow> thinned op h h2"
  unfolding thinned_def
proof (intro allI conjI)
  fix x
  assume a: "\<forall>x. h1 x = (h x)\<lparr>ops := ops (h1 x)\<rparr> \<and>
          filter (\<lambda>t. t \<noteq> op) (ops (h1 x)) = filter (\<lambda>t. t \<noteq> op) (ops (h x)) \<and>
          count_list (ops (h1 x)) op \<le> count_list (ops (h x)) op"
    and b: "\<forall>x. h2 x = (h1 x)\<lparr>ops := ops (h2 x)\<rparr> \<and>
          filter (\<lambda>t. t \<noteq> op) (ops (h2 x)) = filter (\<lambda>t. t \<noteq> op) (ops (h1 x)) \<and>
          count_list (ops (h2 x)) op \<le> count_list (ops (h1 x)) op"
  from a b have "h2 x = (h1 x)\<lparr>ops := ops (h2 x)\<rparr>" "h1 x = (h x)\<lparr>ops := ops (h1 x)\<rparr>"
    by blast+
  then show "h2 x = (h x)\<lparr>ops := ops (h2 x)\<rparr>"
    by (metis OpsGroup.surjective OpsGroup.update_convs(2))
  from a b show "filter (\<lambda>t. t \<noteq> op) (ops (h2 x)) = filter (\<lambda>t. t \<noteq> op) (ops (h x))"
    by simp
  from a b show "count_list (ops (h2 x)) op \<le> count_list (ops (h x)) op"
    using le_trans by blast
qed

lemma count_list_remove1:
  "count_list (remove1 a xs) a = count_list xs a - 1"
  by (induction xs) auto

lemma filter_others_remove1:
  "filter (\<lambda>t. t \<noteq> a) (remove1 a xs) = filter (\<lambda>t. t \<noteq> a) xs"
  by (induction xs) auto

lemma thinned_step: "thinned op h (h(g := (h g)\<lparr>ops := remove1 op (ops (h g))\<rparr>))"
  by (simp add: thinned_def filter_others_remove1 count_list_remove1)

lemma thinned_groups: "thinned op h h' \<Longrightarrow> OpsGroup.groups (h' x) = OpsGroup.groups (h x)"
  unfolding thinned_def by (metis OpsGroup.select_convs(3) OpsGroup.surjective OpsGroup.update_convs(2))


lemma thinned_depth_below:
  "thinned op h h' \<Longrightarrow> depth_below n h' g = depth_below n h g"
  by (induction n arbitrary: g) (simp_all add: thinned_groups)

lemma same_groups_in_subtree:
  "in_subtree h g x \<Longrightarrow> \<forall>y. OpsGroup.groups (h' y) = OpsGroup.groups (h y) \<Longrightarrow> in_subtree h' g x"
  by (induction rule: in_subtree.induct) (auto intro: in_subtree.intros)

lemma thinned_in_subtree:
  "thinned op h h' \<Longrightarrow> in_subtree h' g x = in_subtree h g x"
  using same_groups_in_subtree [of h g x h'] same_groups_in_subtree [of h' g x h]
  by (auto simp: thinned_groups)

lemma in_subtree_cases:
  "in_subtree h g x \<Longrightarrow> x = g \<or> (\<exists>c \<in> set (OpsGroup.groups (h g)). in_subtree h c x)"
  by (erule in_subtree.cases) auto

lemma for_each_removes:
  fixes h :: "gid \<Rightarrow> 'v OpsGroup"
  assumes step: "\<And>(h :: gid \<Rightarrow> 'v OpsGroup) g. depth_below n h g \<Longrightarrow>
                   \<exists>h'. remove_op_recursive n h g op = (Inr (), h') \<and> removes op h [g] h'"
  shows "\<forall>g \<in> set gs. depth_below n h g \<Longrightarrow>
         \<exists>h'. for_each (\<lambda>g h'. remove_op_recursive n h' g op) gs h = (Inr (), h') \<and>
              removes op h gs h'"
proof (induction gs arbitrary: h)
  case Nil
  then show ?case by (simp add: removes_def thinned_refl)
next
  case (Cons g gs)
  from step [of h g] Cons.prems obtain h1 where
    r1: "remove_op_recursive n h g op = (Inr (), h1)" and m1: "removes op h [g] h1"
    by auto
  from m1 have t1: "thinned op h h1" by (simp add: removes_def)
  from Cons.prems have "\<forall>c \<in> set gs. depth_below n h1 c"
    by (simp add: thinned_depth_below [OF t1])
  from Cons.IH [OF this] obtain h2 where
    r2: "for_each (\<lambda>g h'. remove_op_recursive n h' g op) gs h1 = (Inr (), h2)"
    and m2: "removes op h1 gs h2"
    by blast
  from m2 have t2: "thinned op h1 h2" by (simp add: removes_def)
  have "removes op h (g # gs) h2"
    unfolding removes_def
  proof (intro conjI allI impI)
    show "thinned op h h2" using t1 t2 by (rule thinned_trans)
  next
    fix x
    assume "\<exists>c \<in> set (g # gs). in_subtree h c x"
    then consider "in_subtree h g x" | c where "c \<in> set gs" "in_subtree h c x"
      by auto
    then show "count_list (ops (h2 x)) op \<le> count_list (ops (h x)) op - 1"
    proof cases
      case 1
      with m1 have "count_list (ops (h1 x)) op \<le> count_list (ops (h x)) op - 1"
        by (simp add: removes_def)
      moreover from t2 have "count_list (ops (h2 x)) op \<le> count_list (ops (h1 x)) op"
        by (simp add: thinned_def)
      ultimately show ?thesis by simp
    next
      case 2
      then have "in_subtree h1 c x" by (simp add: thinned_in_subtree [OF t1])
      with 2 m2 have "count_list (ops (h2 x)) op \<le> count_list (ops (h1 x)) op - 1"
        by (auto simp: removes_def)
      moreover from t1 have "count_list (ops (h1 x)) op \<le> count_list (ops (h x)) op"
        by (simp add: thinned_def)
      ultimately show ?thesis by simp
    qed
  next
    fix x
    assume u: "\<forall>c \<in> set (g # gs). \<not> in_subtree h c x"
    with m1 have "h1 x = h x" by (simp add: removes_def)
    moreover from u have "\<forall>c \<in> set gs. \<not> in_subtree h1 c x"
      by (simp add: thinned_in_subtree [OF t1])
    with m2 have "h2 x = h1 x" by (simp add: removes_def)
    ultimately show "h2 x = h x" by simp
  qed
  with r1 r2 show ?case by simp
qed

lemma remove_op_recursive_removes:
  "depth_below n h g \<Longrightarrow>
   \<exists>h'. remove_op_recursive n h g op = (Inr (), h') \<and> removes op h [g] h'"
proof (induction n arbitrary: h g)
  case 0
  then show ?case by simp
next
  case (Suc n)
  define h1 where "h1 = (if ops (h g) \<noteq> [] \<and> op \<in> set (ops (h g))
                then h(g := (h g)\<lparr>ops := remove1 op (ops (h g))\<rparr>) else h)"
  have t1: "thinned op h h1"
    by (simp add: h1_def thinned_refl thinned_step)
  have g1: "count_list (ops (h1 g)) op \<le> count_list (ops (h g)) op - 1"
    by (auto simp: h1_def count_list_remove1 count_list_0_iff)
  have o1: "\<And>x. x \<noteq> g \<Longrightarrow> h1 x = h x"
    by (simp add: h1_def)
  have cs: "OpsGroup.groups (h1 g) = OpsGroup.groups (h g)"
    by (simp add: thinned_groups [OF t1])
  from Suc.prems have "\<forall>c \<in> set (OpsGroup.groups (h1 g)). depth_below n h1 c"
    by (simp add: cs thinned_depth_below [OF t1])
  from for_each_removes [of n op, OF Suc.IH this] obtain h' where
    r: "for_each (\<lambda>g h'. remove_op_recursive n h' g op) (OpsGroup.groups (h1 g)) h1 = (Inr (), h')"
    and m: "removes op h1 (OpsGroup.groups (h1 g)) h'"
    by blast
  from m have t2: "thinned op h1 h'" by (simp add: removes_def)
  have "removes op h [g] h'"
    unfolding removes_def
  proof (intro conjI allI impI)
    show "thinned op h h'" using t1 t2 by (rule thinned_trans)
  next
    fix x
    assume "\<exists>c \<in> set [g]. in_subtree h c x"
    then have "in_subtree h g x" by simp
    from in_subtree_cases [OF this]
    show "count_list (ops (h' x)) op \<le> count_list (ops (h x)) op - 1"
    proof
      assume "x = g"
      moreover from t2 have "count_list (ops (h' g)) op \<le> count_list (ops (h1 g)) op"
        by (simp add: thinned_def)
      ultimately show ?thesis using g1 by simp
    next
      assume "\<exists>c \<in> set (OpsGroup.groups (h g)). in_subtree h c x"
      then obtain c where "c \<in> set (OpsGroup.groups (h1 g))" "in_subtree h1 c x"
        by (auto simp: cs thinned_in_subtree [OF t1])
      with m have "count_list (ops (h' x)) op \<le> count_list (ops (h1 x)) op - 1"
        by (auto simp: removes_def)
      moreover from t1 have "count_list (ops (h1 x)) op \<le> count_list (ops (h x)) op"
        by (simp add: thinned_def)
      ultimately show ?thesis by simp
    qed
  next
    fix x
    assume u: "\<forall>c \<in> set [g]. \<not> in_subtree h c x"
    then have ng: "x \<noteq> g" by (auto intro: in_subtree.here)
    from u have "\<forall>c \<in> set (OpsGroup.groups (h g)). \<not> in_subtree h c x"
      by (auto intro: in_subtree.below)
    then have "\<forall>c \<in> set (OpsGroup.groups (h1 g)). \<not> in_subtree h1 c x"
      by (simp add: cs thinned_in_subtree [OF t1])
    with m have "h' x = h1 x" by (simp add: removes_def)
    with o1 [OF ng] show "h' x = h x" by simp
  qed
  moreover have "remove_op_recursive (Suc n) h g op = (Inr (), h')"
    using r by (simp add: h1_def [symmetric] Let_def)
  ultimately show ?case by blast
qed




lemma depth_below_mono: "depth_below n h g \<Longrightarrow> depth_below (Suc n) h g"
  by (induction n arbitrary: g) auto

lemma depth_below_subtree:
  "in_subtree h g x \<Longrightarrow> depth_below n h g \<Longrightarrow> depth_below n h x"
proof (induction arbitrary: n rule: in_subtree.induct)
  case (here g)
  then show ?case .
next
  case (below c g x)
  from below.prems obtain m where n: "n = Suc m"
    by (cases n) auto
  with below.prems below.hyps(1) have "depth_below m h c" by simp
  then have "depth_below m h x" by (rule below.IH)
  with n show ?case by (simp only: depth_below_mono)
qed

lemma depth_below_acyclic:
  "depth_below n h g \<Longrightarrow> c \<in> set (OpsGroup.groups (h g)) \<Longrightarrow> \<not> in_subtree h c g"
proof (induction n arbitrary: g c)
  case 0
  then show ?case by simp
next
  case (Suc n)
  show ?case
  proof
    assume s: "in_subtree h c g"
    from Suc.prems have "depth_below n h c" by simp
    with s have "depth_below n h g" by (rule depth_below_subtree)
    from Suc.IH [OF this Suc.prems(2)] s show False by simp
  qed
qed

lemma remove_op_recursive_self:
  assumes "depth_below n h g"
    and "remove_op_recursive n h g op = (Inr (), h')"
  shows "ops (h' g) = remove1 op (ops (h g))"
proof (cases n)
  case 0
  with assms show ?thesis by simp
next
  case (Suc m)
  define h1 where "h1 = (if ops (h g) \<noteq> [] \<and> op \<in> set (ops (h g))
                then h(g := (h g)\<lparr>ops := remove1 op (ops (h g))\<rparr>) else h)"
  have t1: "thinned op h h1"
    by (simp add: h1_def thinned_refl thinned_step)
  have cs: "OpsGroup.groups (h1 g) = OpsGroup.groups (h g)"
    by (simp add: thinned_groups [OF t1])
  have o1: "ops (h1 g) = remove1 op (ops (h g))"
    by (simp add: h1_def remove1_idem)
  from assms Suc have d: "\<forall>c \<in> set (OpsGroup.groups (h1 g)). depth_below m h1 c"
    by (simp add: cs thinned_depth_below [OF t1])
  from for_each_removes [of m op, OF remove_op_recursive_removes d] obtain h2 where
    r: "for_each (\<lambda>g h'. remove_op_recursive m h' g op) (OpsGroup.groups (h1 g)) h1 = (Inr (), h2)"
    and m: "removes op h1 (OpsGroup.groups (h1 g)) h2"
    by blast
  from assms(2) Suc r have "h' = h2"
    by (simp add: h1_def [symmetric] Let_def)
  moreover have "\<forall>c \<in> set (OpsGroup.groups (h1 g)). \<not> in_subtree h1 c g"
    using depth_below_acyclic [OF assms(1)]
    by (simp add: cs thinned_in_subtree [OF t1])
  with m have "h2 g = h1 g" by (simp add: removes_def)
  ultimately show ?thesis using o1 by simp
qed

lemma filter_others_id: "a \<notin> set xs \<Longrightarrow> filter (\<lambda>t. t \<noteq> a) xs = xs"
  by (induction xs) auto

lemma remove1_once:
  "count_list xs a \<le> 1 \<Longrightarrow> remove1 a xs = filter (\<lambda>t. t \<noteq> a) xs"
  by (induction xs) (auto simp: count_list_0_iff filter_others_id)

lemma removes_absent:
  assumes "thinned op h h'" and "op \<notin> set (ops (h x))"
  shows "h' x = h x"
proof -
  from assms(2) have "count_list (ops (h x)) op = 0"
    by (simp add: count_list_0_iff)
  moreover from assms(1) have "count_list (ops (h' x)) op \<le> count_list (ops (h x)) op"
    by (simp add: thinned_def)
  ultimately have "count_list (ops (h' x)) op = 0" by simp
  then have "op \<notin> set (ops (h' x))" by (simp add: count_list_0_iff)
  then have "ops (h' x) = filter (\<lambda>t. t \<noteq> op) (ops (h' x))"
    by (rule filter_others_id [symmetric])
  also from assms(1) have "\<dots> = filter (\<lambda>t. t \<noteq> op) (ops (h x))"
    by (simp add: thinned_def)
  also from assms(2) have "\<dots> = ops (h x)"
    by (rule filter_others_id)
  finally have o: "ops (h' x) = ops (h x)" .
  from assms(1) have "h' x = (h x)\<lparr>ops := ops (h' x)\<rparr>"
    by (simp add: thinned_def)
  also have "\<dots> = h x"
    by (simp only: o OpsGroup.surjective OpsGroup.update_convs) simp
  finally show ?thesis .
qed

lemma removes_once:
  assumes "removes op h gs h'" and "g \<in> set gs" and "in_subtree h g x"
    and "count_list (ops (h x)) op \<le> 1"
  shows "ops (h' x) = remove1 op (ops (h x)) \<and> op \<notin> set (ops (h' x))"
proof -
  from assms have "count_list (ops (h' x)) op \<le> count_list (ops (h x)) op - 1"
    by (auto simp: removes_def)
  with assms(4) have "count_list (ops (h' x)) op = 0" by simp
  then have n: "op \<notin> set (ops (h' x))" by (simp add: count_list_0_iff)
  then have "ops (h' x) = filter (\<lambda>t. t \<noteq> op) (ops (h' x))"
    by (rule filter_others_id [symmetric])
  also from assms(1) have "\<dots> = filter (\<lambda>t. t \<noteq> op) (ops (h x))"
    by (simp add: removes_def thinned_def)
  also from assms(4) have "\<dots> = remove1 op (ops (h x))"
    by (simp add: remove1_once)
  finally show ?thesis using n by simp
qed

lemma ex_heap_simps:
  "ex_heap 10 = blank\<lparr>type := ''pipeline'', name := Some ''demo'', ops := [7],
                     OpsGroup.groups := [11]\<rparr>"
  "ex_heap 11 = blank\<lparr>type := ''condition'', name := Some ''condition-1'', ops := [8],
                     OpsGroup.groups := [12]\<rparr>"
  "ex_heap 12 = blank\<lparr>type := ''graph'', name := Some ''graph-foo-2'', ops := [9]\<rparr>"
  by (simp_all add: ex_heap_def)

lemma ex_heap_depth: "depth_below 3 ex_heap 10"
proof -
  have "depth_below (Suc (Suc (Suc 0))) ex_heap 10"
    by (simp add: ex_heap_simps blank_def)
  then show ?thesis by (simp only: numeral_3_eq_3)
qed

lemma ex_heap_subtree: "in_subtree ex_heap 10 12"
proof -
  have "in_subtree ex_heap 12 12" by (rule in_subtree.here)
  then have "in_subtree ex_heap 11 12"
    by (rule in_subtree.below [rotated]) (simp add: ex_heap_simps)
  then show ?thesis
    by (rule in_subtree.below [rotated]) (simp add: ex_heap_simps)
qed

text \<open>
  C9. When the child links below a node are well founded within the recursion depth,
  \<open>remove_op_recursive\<close> returns; it removes the first occurrence of the task from the
  node's own list and, through the recursion, from the list of every node below it,
  however deep (exactly \<open>remove1\<close> where the task occurs at most once). Nothing but task
  lists changes, no other task is removed or moved, and every node that is not below the
  node or does not hold the task is unchanged.
\<close>

theorem remove_op_recursive_spec:
  assumes "depth_below n h g"
  shows "\<exists>h'. remove_op_recursive n h g op = (Inr (), h') \<and>
           ops (h' g) = remove1 op (ops (h g)) \<and>
           (\<forall>x. in_subtree h g x \<longrightarrow> count_list (ops (h x)) op \<le> 1 \<longrightarrow>
                ops (h' x) = remove1 op (ops (h x)) \<and> op \<notin> set (ops (h' x))) \<and>
           (\<forall>x. in_subtree h g x \<longrightarrow> op \<in> set (ops (h x)) \<longrightarrow>
                count_list (ops (h' x)) op < count_list (ops (h x)) op) \<and>
           (\<forall>x. h' x = (h x)\<lparr>ops := ops (h' x)\<rparr> \<and>
                filter (\<lambda>t. t \<noteq> op) (ops (h' x)) = filter (\<lambda>t. t \<noteq> op) (ops (h x))) \<and>
           (\<forall>x. \<not> in_subtree h g x \<or> op \<notin> set (ops (h x)) \<longrightarrow> h' x = h x)"
proof -
  from remove_op_recursive_removes [OF assms, of op] obtain h' where
    r: "remove_op_recursive n h g op = (Inr (), h')" and m: "removes op h [g] h'"
    by blast
  from m have t: "thinned op h h'" by (simp add: removes_def)
  have a: "ops (h' g) = remove1 op (ops (h g))"
    using assms r by (rule remove_op_recursive_self)
  have b: "\<forall>x. in_subtree h g x \<longrightarrow> count_list (ops (h x)) op \<le> 1 \<longrightarrow>
                ops (h' x) = remove1 op (ops (h x)) \<and> op \<notin> set (ops (h' x))"
  proof (intro allI impI)
    fix x
    assume "in_subtree h g x" and "count_list (ops (h x)) op \<le> 1"
    then show "ops (h' x) = remove1 op (ops (h x)) \<and> op \<notin> set (ops (h' x))"
      by (intro removes_once [OF m, of g x]) simp_all
  qed
  have c: "\<forall>x. in_subtree h g x \<longrightarrow> op \<in> set (ops (h x)) \<longrightarrow>
                count_list (ops (h' x)) op < count_list (ops (h x)) op"
  proof (intro allI impI)
    fix x
    assume "in_subtree h g x" and i: "op \<in> set (ops (h x))"
    with m have "count_list (ops (h' x)) op \<le> count_list (ops (h x)) op - 1"
      by (auto simp: removes_def)
    moreover from i have "0 < count_list (ops (h x)) op"
      by (metis count_list_0_iff gr0I)
    ultimately show "count_list (ops (h' x)) op < count_list (ops (h x)) op" by simp
  qed
  have d: "\<forall>x. h' x = (h x)\<lparr>ops := ops (h' x)\<rparr> \<and>
                filter (\<lambda>t. t \<noteq> op) (ops (h' x)) = filter (\<lambda>t. t \<noteq> op) (ops (h x))"
    using t by (simp add: thinned_def)
  have e: "\<forall>x. \<not> in_subtree h g x \<or> op \<notin> set (ops (h x)) \<longrightarrow> h' x = h x"
  proof (intro allI impI)
    fix x
    assume "\<not> in_subtree h g x \<or> op \<notin> set (ops (h x))"
    then show "h' x = h x"
    proof
      assume "\<not> in_subtree h g x"
      with m show ?thesis by (simp add: removes_def)
    next
      assume "op \<notin> set (ops (h x))"
      with t show ?thesis by (rule removes_absent)
    qed
  qed
  show ?thesis
    by (intro exI [of _ h'] conjI) (rule r a b c d e)+
qed


theorem remove_op_recursive_spec_witness:
  "depth_below 3 ex_heap 10 \<and>
   (\<exists>h'. remove_op_recursive 3 ex_heap 10 9 = (Inr (), h') \<and>
      ops (h' 12) = [] \<and> ops (h' 10) = [7] \<and> h' 11 = ex_heap 11)"
proof -
  from remove_op_recursive_spec [OF ex_heap_depth, of 9] obtain h' where
    r: "remove_op_recursive 3 ex_heap 10 9 = (Inr (), h')"
    and a: "ops (h' 10) = remove1 9 (ops (ex_heap 10))"
    and b: "\<And>x. in_subtree ex_heap 10 x \<Longrightarrow> count_list (ops (ex_heap x)) 9 \<le> 1 \<Longrightarrow>
                ops (h' x) = remove1 9 (ops (ex_heap x))"
    and e: "\<And>x. \<not> in_subtree ex_heap 10 x \<or> 9 \<notin> set (ops (ex_heap x)) \<Longrightarrow> h' x = ex_heap x"
    by blast
  from b [OF ex_heap_subtree] have "ops (h' 12) = []"
    by (simp add: ex_heap_simps blank_def)
  moreover from a have "ops (h' 10) = [7]"
    by (simp add: ex_heap_simps blank_def)
  moreover from e [of 11] have "h' 11 = ex_heap 11"
    by (simp add: ex_heap_simps blank_def)
  ultimately show ?thesis using r ex_heap_depth by blast
qed



section \<open>Exit handler construction\<close>

lemma depth_below_cut:
  "depth_below n h g \<Longrightarrow> OpsGroup.groups v = [] \<Longrightarrow> depth_below n (h(self := v)) g"
  by (induction n arbitrary: g) auto

text \<open>
  C3, as the code has it. Building an exit handler around a task without dependents, with
  the registered groups well founded within the recursion depth and the task at most once
  in each task list, succeeds: the task's \<open>is_exit_handler\<close> flag is set, the task is in
  no task list of any node below a registered group, and nothing else changes in those
  nodes. The handler refers to the task through \<open>exit_op\<close>; its own task list is empty.
\<close>

theorem exit_handler_detaches:
  assumes ctx: "default_pipeline s = Some p"
    and dep: "dependent_names (op_heap s t) = []"
    and depth: "\<forall>g \<in> set (Pipeline.groups p). depth_below n (heap s) g"
    and once: "\<forall>x. count_list (ops (heap s x)) t \<le> 1"
  shows "\<exists>s'. ExitHandler_init n s self t = (Inr (), s') \<and>
           is_exit_handler (op_heap s' t) \<and> exit_op (heap s' self) = Some t \<and>
           ops (heap s' self) = [] \<and>
           (\<forall>g \<in> set (Pipeline.groups p). \<forall>x. in_subtree (heap s') g x \<longrightarrow>
                t \<notin> set (ops (heap s' x))) \<and>
           (\<forall>x. x \<noteq> self \<longrightarrow>
                heap s' x = (heap s x)\<lparr>ops := ops (heap s' x)\<rparr> \<and>
                filter (\<lambda>u. u \<noteq> t) (ops (heap s' x)) = filter (\<lambda>u. u \<noteq> t) (ops (heap s x))) \<and>
           default_pipeline s' = Some p"
proof -
  define s1 where "s1 = OpsGroup_init s self ''exit_handler'' None"
  define h1 where "h1 = heap s1"
  have other1: "h1 x = heap s x" if "x \<noteq> self" for x
    using that by (simp add: h1_def s1_def OpsGroup_init_def)
  have g1: "OpsGroup.groups (h1 self) = []" and o1: "ops (h1 self) = []"
    and c1: "default_pipeline s1 = Some p" and d1: "dependent_names (op_heap s1 t) = []"
    using ctx dep by (simp_all add: h1_def s1_def OpsGroup_init_def)
  have h1: "h1 = (heap s)(self := h1 self)"
    by (rule ext) (simp add: other1)
  have "\<forall>g \<in> set (Pipeline.groups p). depth_below n ((heap s)(self := h1 self)) g"
    using depth g1 by (simp add: depth_below_cut)
  with h1 have "\<forall>g \<in> set (Pipeline.groups p). depth_below n h1 g" by simp
  from for_each_removes [of n t, OF remove_op_recursive_removes this] obtain h' where
    r: "remove_op_from_groups n p h1 t = (Inr (), h')"
    and m: "removes t h1 (Pipeline.groups p) h'"
    by (auto simp: remove_op_from_groups_def)
  from m have th: "thinned t h1 h'" by (simp add: removes_def)
  define s' where "s' = s1\<lparr>heap := h'(self := (h' self)\<lparr>exit_op := Some t\<rparr>),
                      op_heap := (op_heap s1)(t := (op_heap s1 t)\<lparr>is_exit_handler := True\<rparr>)\<rparr>"
  have run: "ExitHandler_init n s self t = (Inr (), s')"
    using c1 d1 r
    by (simp add: ExitHandler_init_def s1_def [symmetric] h1_def [symmetric] s'_def Let_def)
  have self: "h' self = h1 self"
    using th by (rule removes_absent) (simp add: o1)
  have once1: "count_list (ops (h1 x)) t \<le> 1" for x
    using once o1 other1 [of x] by (cases "x = self") simp_all
  have gr: "OpsGroup.groups (heap s' y) = OpsGroup.groups (h1 y)" for y
    using thinned_groups [OF th, of y] by (auto simp: s'_def)
  have op: "ops (heap s' y) = ops (h' y)" for y
    by (simp add: s'_def)
  have tree: "t \<notin> set (ops (heap s' x))"
    if "g \<in> set (Pipeline.groups p)" and "in_subtree (heap s') g x" for g x
  proof -
    from that(2) have "in_subtree h1 g x"
      by (rule same_groups_in_subtree) (simp add: gr)
    from removes_once [OF m that(1) this once1, THEN conjunct2] show ?thesis
      by (simp add: op)
  qed
  have frame: "heap s' x = (heap s x)\<lparr>ops := ops (heap s' x)\<rparr> \<and>
                filter (\<lambda>u. u \<noteq> t) (ops (heap s' x)) = filter (\<lambda>u. u \<noteq> t) (ops (heap s x))"
    if "x \<noteq> self" for x
  proof -
    from that have a: "h1 x = heap s x" by (rule other1)
    from that have b: "heap s' x = h' x" by (simp add: s'_def)
    from th have "h' x = (h1 x)\<lparr>ops := ops (h' x)\<rparr>"
      and "filter (\<lambda>u. u \<noteq> t) (ops (h' x)) = filter (\<lambda>u. u \<noteq> t) (ops (h1 x))"
      by (simp_all add: thinned_def)
    then show ?thesis by (simp only: a b)
  qed
  have "is_exit_handler (op_heap s' t)" "exit_op (heap s' self) = Some t"
    "ops (heap s' self) = []" "default_pipeline s' = Some p"
    using c1 self o1 by (simp_all add: s'_def)
  with run tree frame show ?thesis by blast
qed


lemma ex_state_simps:
  "default_pipeline ex_state = Some ex_pipeline"
  "heap ex_state = ex_heap"
  "op_heap ex_state 8 = task_free"
  by (simp_all add: ex_state_def)

lemma ex_heap_others: "x \<notin> {10, 11, 12} \<Longrightarrow> ex_heap x = blank"
  by (simp add: ex_heap_def)


lemma ex_once: "count_list (ops (heap ex_state x)) 8 \<le> 1"
proof (cases "x \<in> {10, 11, 12}")
  case True
  then show ?thesis
    by (auto simp: ex_state_simps ex_heap_simps blank_def)
next
  case False
  then show ?thesis
    by (simp add: ex_state_simps ex_heap_others blank_def)
qed

lemma ex_depths:
  "\<forall>g \<in> set (Pipeline.groups ex_pipeline). depth_below 3 (heap ex_state) g"
proof -
  have "depth_below (Suc (Suc (Suc 0))) ex_heap 11"
    and "depth_below (Suc (Suc (Suc 0))) ex_heap 12"
    by (simp_all add: ex_heap_simps blank_def)
  then have "depth_below 3 ex_heap 11" and "depth_below 3 ex_heap 12"
    by (simp_all only: numeral_3_eq_3)
  with ex_heap_depth show ?thesis
    by (simp add: ex_pipeline_def ex_state_simps)
qed

theorem exit_handler_detaches_witness:
  "\<exists>s'. ExitHandler_init 3 ex_state 16 8 = (Inr (), s') \<and>
      is_exit_handler (op_heap s' 8) \<and> exit_op (heap s' 16) = Some 8 \<and>
      8 \<notin> set (ops (heap s' 11)) \<and> ops (heap s' 10) = [7] \<and> ops (heap s' 12) = [9]"
proof -
  have dep: "dependent_names (op_heap ex_state 8) = []"
    by (simp add: ex_state_simps task_free_def)
  have once: "\<forall>x. count_list (ops (heap ex_state x)) 8 \<le> 1"
    using ex_once by blast
  from exit_handler_detaches [OF ex_state_simps(1) dep ex_depths once, of 16]
  obtain s' where
    r: "ExitHandler_init 3 ex_state 16 8 = (Inr (), s')"
    and f: "is_exit_handler (op_heap s' 8)" "exit_op (heap s' 16) = Some 8"
    and t: "\<forall>g \<in> set (Pipeline.groups ex_pipeline). \<forall>x. in_subtree (heap s') g x \<longrightarrow>
              8 \<notin> set (ops (heap s' x))"
    and k: "\<forall>x. x \<noteq> 16 \<longrightarrow>
              heap s' x = (heap ex_state x)\<lparr>ops := ops (heap s' x)\<rparr> \<and>
              filter (\<lambda>u. u \<noteq> 8) (ops (heap s' x)) = filter (\<lambda>u. u \<noteq> 8) (ops (heap ex_state x))"
    by (elim exE conjE)
  have n: "8 \<notin> set (ops (heap s' g))" if "g \<in> {10, 11, 12}" for g
    using t that in_subtree.here [of "heap s'" g] by (auto simp: ex_pipeline_def)
  have e: "ops (heap s' g) = filter (\<lambda>u. u \<noteq> 8) (ops (heap ex_state g))" if "g \<in> {10, 11, 12}" for g
  proof -
    from that have "g \<noteq> 16" by auto
    with k have "filter (\<lambda>u. u \<noteq> 8) (ops (heap s' g)) = filter (\<lambda>u. u \<noteq> 8) (ops (heap ex_state g))"
      by simp
    with filter_others_id [OF n [OF that]] show ?thesis by simp
  qed
  have "8 \<notin> set (ops (heap s' 11))" by (rule n) simp
  moreover have "ops (heap s' 10) = [7]"
    using e [of 10] by (simp add: ex_state_simps ex_heap_simps blank_def)
  moreover have "ops (heap s' 12) = [9]"
    using e [of 12] by (simp add: ex_state_simps ex_heap_simps blank_def)
  ultimately show ?thesis using r f by blast
qed


text \<open>
  The task is not in the exit handler's task list after construction: task 8 of the
  example, wrapped by the new node 16.
\<close>

theorem exit_handler_own_list_counterexample:
  "dependent_names (op_heap ex_state 8) = [] \<and>
   fst (ExitHandler_init 3 ex_state 16 8) = Inr () \<and>
   8 \<notin> set (ops (heap (snd (ExitHandler_init 3 ex_state 16 8)) 16))"
  unfolding numeral_3_eq_3
  by (simp add: ExitHandler_init_def remove_op_from_groups_def OpsGroup_init_def Let_def
        ex_state_def ex_pipeline_def ex_heap_def blank_def task_free_def)


end
